theory Spec2Isabelle
  imports Complex_Main "HOL-Library.Log_Nat"
begin

section \<open>Floating-point values of the program\<close>

text \<open>
  The arrays of \<^verbatim>\<open>proj.cpp\<close> hold C \<^verbatim>\<open>float\<close>s and its scalars are C
  \<^verbatim>\<open>double\<close>s. They are modelled as IEEE 754 binary32 and binary64 values under
  the default rounding (to nearest, ties to even), each operation rounded once to its own
  format, which is what an x86-64 build does (SSE2 arithmetic, glibc). A finite value is
  a sign bit and a rational magnitude; the operations round the exact rational result, so
  the model computes the rounding error of the program instead of ignoring it.

  \<open>NaN\<close> is the NaN of such a build: an invalid operation (\<open>\<infinity> - \<infinity>\<close>, \<open>0 / 0\<close>,
  \<open>\<infinity> / \<infinity>\<close>, \<open>0 * \<infinity>\<close>) gives the default NaN, whose sign bit is set, and an
  operation on a NaN gives that NaN back, sign included (the program negates nothing:
  its subtraction is one instruction). So every NaN of a run has its sign bit set, and
  one constructor stands for them.
\<close>

record format =
  prec :: nat
  emax :: int

definition binary32 :: format where
  "binary32 = \<lparr>prec = 24, emax = 127\<rparr>"

definition binary64 :: format where
  "binary64 = \<lparr>prec = 53, emax = 1023\<rparr>"

datatype fp = Finite bool rat | Infinity bool | NaN

text \<open>\<open>ilog2 q\<close> is the exponent \<open>e\<close> with \<open>2^e \<le> q < 2^(e+1)\<close>, for \<open>q > 0\<close>.\<close>

definition ilog2 :: "rat \<Rightarrow> int" where
  "ilog2 q = (if 1 \<le> q then bitlen \<lfloor>q\<rfloor> - 1 else - bitlen (\<lceil>1 / q\<rceil> - 1))"

text \<open>Rounding to the nearest integer, ties to the even one.\<close>

definition rne :: "rat \<Rightarrow> int" where
  "rne q = (let f = \<lfloor>q\<rfloor>; d = q - of_int f
            in if d < 1 / 2 then f else if 1 / 2 < d then f + 1
               else if even f then f else f + 1)"

text \<open>
  The unit in the last place of the binade of \<open>q\<close>; below the smallest normal number
  the exponent stays at \<open>1 - emax\<close> (subnormal numbers).
\<close>

definition ulp :: "format \<Rightarrow> rat \<Rightarrow> rat" where
  "ulp fmt q = 2 powi (max (ilog2 q) (1 - emax fmt) - int (prec fmt) + 1)"

definition rnd :: "format \<Rightarrow> rat \<Rightarrow> rat" where
  "rnd fmt q = (if q \<le> 0 then 0 else let u = ulp fmt q in of_int (rne (q / u)) * u)"

text \<open>The value of sign \<open>s\<close> nearest to the magnitude \<open>q\<close>; overflow gives an infinity.\<close>

definition mk :: "format \<Rightarrow> bool \<Rightarrow> rat \<Rightarrow> fp" where
  "mk fmt s q = (let r = rnd fmt q in
     if 2 powi (emax fmt + 1) \<le> r then Infinity s else Finite s r)"

definition val :: "bool \<Rightarrow> rat \<Rightarrow> rat" where
  "val s q = (if s then - q else q)"

fun fneg :: "fp \<Rightarrow> fp" where
  "fneg (Finite s q) = Finite (\<not> s) q"
| "fneg (Infinity s) = Infinity (\<not> s)"
| "fneg NaN = NaN"

fun fadd :: "format \<Rightarrow> fp \<Rightarrow> fp \<Rightarrow> fp" where
  "fadd fmt NaN y = NaN"
| "fadd fmt x NaN = NaN"
| "fadd fmt (Infinity s) (Infinity s') = (if s = s' then Infinity s else NaN)"
| "fadd fmt (Infinity s) (Finite s' q') = Infinity s"
| "fadd fmt (Finite s q) (Infinity s') = Infinity s'"
| "fadd fmt (Finite s q) (Finite s' q') =
     (let v = val s q + val s' q'
      in if v = 0 then Finite (s \<and> s') 0 else mk fmt (v < 0) \<bar>v\<bar>)"

definition fsub :: "format \<Rightarrow> fp \<Rightarrow> fp \<Rightarrow> fp" where
  "fsub fmt x y = fadd fmt x (fneg y)"

fun fmul :: "format \<Rightarrow> fp \<Rightarrow> fp \<Rightarrow> fp" where
  "fmul fmt NaN y = NaN"
| "fmul fmt x NaN = NaN"
| "fmul fmt (Infinity s) (Infinity s') = Infinity (s \<noteq> s')"
| "fmul fmt (Infinity s) (Finite s' q') = (if q' = 0 then NaN else Infinity (s \<noteq> s'))"
| "fmul fmt (Finite s q) (Infinity s') = (if q = 0 then NaN else Infinity (s \<noteq> s'))"
| "fmul fmt (Finite s q) (Finite s' q') = mk fmt (s \<noteq> s') (q * q')"

fun fdiv :: "format \<Rightarrow> fp \<Rightarrow> fp \<Rightarrow> fp" where
  "fdiv fmt NaN y = NaN"
| "fdiv fmt x NaN = NaN"
| "fdiv fmt (Infinity s) (Infinity s') = NaN"
| "fdiv fmt (Infinity s) (Finite s' q') = Infinity (s \<noteq> s')"
| "fdiv fmt (Finite s q) (Infinity s') = Finite (s \<noteq> s') 0"
| "fdiv fmt (Finite s q) (Finite s' q') =
     (if q' = 0 then (if q = 0 then NaN else Infinity (s \<noteq> s'))
      else mk fmt (s \<noteq> s') (q / q'))"

text \<open>
  C's \<^verbatim>\<open>x > y\<close> and \<^verbatim>\<open>x == y\<close>: false when either side is a NaN, and
  \<open>-0\<close> equals \<open>+0\<close>.
\<close>

fun fgt :: "fp \<Rightarrow> fp \<Rightarrow> bool" where
  "fgt NaN y = False"
| "fgt x NaN = False"
| "fgt (Infinity s) (Infinity s') = (\<not> s \<and> s')"
| "fgt (Infinity s) (Finite s' q') = (\<not> s)"
| "fgt (Finite s q) (Infinity s') = s'"
| "fgt (Finite s q) (Finite s' q') = (val s' q' < val s q)"

definition feq :: "fp \<Rightarrow> fp \<Rightarrow> bool" where
  "feq x y \<longleftrightarrow> x \<noteq> NaN \<and> y \<noteq> NaN \<and> \<not> fgt x y \<and> \<not> fgt y x"

text \<open>The conversions \<^verbatim>\<open>(double)SIZE\<close> and \<^verbatim>\<open>A[i] = 1.\<close> (double to float).\<close>

definition of_int_fp :: "format \<Rightarrow> nat \<Rightarrow> fp" where
  "of_int_fp fmt n = mk fmt False (of_nat n)"

fun convert :: "format \<Rightarrow> fp \<Rightarrow> fp" where
  "convert fmt (Finite s q) = mk fmt s q"
| "convert fmt (Infinity s) = Infinity s"
| "convert fmt NaN = NaN"

section \<open>Formatted output\<close>

definition digit :: "int \<Rightarrow> char" where
  "digit d = ''0123456789'' ! nat d"

text \<open>The decimal digits of a number that is not negative.\<close>

function dec :: "int \<Rightarrow> string" where
  "dec n = (if n < 10 then [digit n] else dec (n div 10) @ [digit (n mod 10)])"
  by pat_completeness auto
termination
  by (relation "measure nat") auto

declare dec.simps [simp del]

definition pad_left :: "nat \<Rightarrow> string \<Rightarrow> string" where
  "pad_left w str = replicate (w - length str) CHR '' '' @ str"

text \<open>
  \<^verbatim>\<open>%8.2lf\<close>: the value rounded to two decimals (glibc rounds the exact binary value,
  ties to even), a minus sign when the sign bit is set, right-justified in at least eight
  characters. An infinity prints as \<^verbatim>\<open>inf\<close> or \<^verbatim>\<open>-inf\<close>. A NaN has its sign
  bit set (see above), so glibc prints it as \<^verbatim>\<open>-nan\<close>.
\<close>

fun printf_8_2lf :: "fp \<Rightarrow> string" where
  "printf_8_2lf (Finite s q) =
     (let n = rne (q * 100)
      in pad_left 8 ((if s then ''-'' else '''') @ dec (n div 100) @ ''.'' @
                     [digit (n mod 100 div 10), digit (n mod 10)]))"
| "printf_8_2lf (Infinity s) = pad_left 8 ((if s then ''-'' else '''') @ ''inf'')"
| "printf_8_2lf NaN = pad_left 8 ''-nan''"

section \<open>The program state\<close>

text \<open>
  What a run does to the world outside its variables, in the order in which it does it:
  \<open>Clock k\<close> is the call number \<open>k\<close> of \<^verbatim>\<open>omp_get_wtime\<close> (counting from 0),
  \<open>Iteration k i\<close> is thread \<open>k\<close> running iteration \<open>i\<close> of the parallel loop.
\<close>

datatype event = Clock nat | Iteration nat nat

text \<open>
  The three global arrays, the two output streams (one entry per call of
  \<^verbatim>\<open>fprintf\<close>/\<^verbatim>\<open>printf\<close>), the number of calls of \<^verbatim>\<open>omp_get_wtime\<close> made so
  far, the events so far (the latest last), and the two locals of \<^verbatim>\<open>main\<close> that
  outlive a trial.
\<close>

record state =
  A :: "fp list"
  B :: "fp list"
  C :: "fp list"
  stderr :: "string list"
  stdout :: "string list"
  wtime_calls :: nat
  trace :: "event list"
  maxMegaMults :: fp
  sum_megaMults :: fp

text \<open>Globals of static storage start zeroed; nothing has been printed.\<close>

definition start :: "nat \<Rightarrow> state" where
  "start SIZE = \<lparr>A = replicate SIZE (Finite False 0), B = replicate SIZE (Finite False 0),
     C = replicate SIZE (Finite False 0), stderr = [], stdout = [], wtime_calls = 0,
     trace = [], maxMegaMults = Finite False 0, sum_megaMults = Finite False 0\<rparr>"

text \<open>
  The wall clock is an input: \<open>wtime k\<close> is what the \<open>k\<close>-th call of
  \<^verbatim>\<open>omp_get_wtime\<close> returns (counting from 0). A call is an event.
\<close>

definition omp_get_wtime :: "(nat \<Rightarrow> fp) \<Rightarrow> state \<Rightarrow> fp \<times> state" where
  "omp_get_wtime wtime s =
     (wtime (wtime_calls s),
      s\<lparr>wtime_calls := Suc (wtime_calls s), trace := trace s @ [Clock (wtime_calls s)]\<rparr>)"

section \<open>The loops\<close>

text \<open>Lines 25 to 29: \<^verbatim>\<open>for (int i = 0; i < SIZE; i++) { A[i] = 1.; B[i] = 2.; }\<close>\<close>

function init_loop :: "nat \<Rightarrow> nat \<Rightarrow> state \<Rightarrow> state" where
  "init_loop SIZE i s =
     (if i < SIZE
      then init_loop SIZE (Suc i)
             (s\<lparr>A := (A s)[i := convert binary32 (Finite False 1)],
                B := (B s)[i := convert binary32 (Finite False 2)]\<rparr>)
      else s)"
  by pat_completeness auto
termination
  by (relation "measure (\<lambda>(SIZE, i, s). SIZE - i)") auto

declare init_loop.simps [simp del]

text \<open>Line 44, one iteration of the parallel loop: \<^verbatim>\<open>C[i] = A[i] * B[i];\<close>\<close>

definition body :: "nat \<Rightarrow> state \<Rightarrow> state" where
  "body i s = s\<lparr>C := (C s)[i := fmul binary32 (A s ! i) (B s ! i)]\<rparr>"

text \<open>
  Lines 41 to 45, \<^verbatim>\<open>#pragma omp parallel for\<close>. OpenMP hands every iteration of the
  loop to one thread of the team, and leaves open which thread gets which iteration and
  how the threads interleave. An execution is therefore a list of pairs (thread,
  iteration), in the order in which the iterations take effect; \<open>par_for\<close> runs one,
  and records each iteration as an event before running its body.
  \<open>valid_schedule NUMT SIZE tr\<close> says that \<open>tr\<close> is an execution OpenMP allows for a
  team of \<open>NUMT\<close> threads: only threads of the team, and every iteration exactly once.
\<close>

fun par_for :: "(nat \<times> nat) list \<Rightarrow> state \<Rightarrow> state" where
  "par_for [] s = s"
| "par_for ((k, i) # tr) s = par_for tr (body i (s\<lparr>trace := trace s @ [Iteration k i]\<rparr>))"

definition valid_schedule :: "nat \<Rightarrow> nat \<Rightarrow> (nat \<times> nat) list \<Rightarrow> bool" where
  "valid_schedule NUMT SIZE tr \<longleftrightarrow>
     (\<forall>(k, i) \<in> set tr. k < NUMT) \<and> distinct (map snd tr) \<and> set (map snd tr) = {0..<SIZE}"

text \<open>Lines 39 to 51, the body of the trial loop.\<close>

definition trial :: "nat \<Rightarrow> (nat \<Rightarrow> (nat \<times> nat) list) \<Rightarrow> (nat \<Rightarrow> fp) \<Rightarrow> nat \<Rightarrow> state \<Rightarrow> state" where
  "trial SIZE sched wtime t s0 =
     (let (time0, s1) = omp_get_wtime wtime s0;
          s2 = par_for (sched t) s1;
          (time1, s3) = omp_get_wtime wtime s2;
          megaMults = fdiv binary64
                        (fdiv binary64 (of_int_fp binary64 SIZE) (fsub binary64 time1 time0))
                        (Finite False 1000000);
          s4 = s3\<lparr>sum_megaMults := fadd binary64 (sum_megaMults s3) megaMults\<rparr>
      in if fgt megaMults (maxMegaMults s4) then s4\<lparr>maxMegaMults := megaMults\<rparr> else s4)"

text \<open>Lines 37 to 52: \<^verbatim>\<open>for (int t = 0; t < NUMTRIES; t++)\<close>\<close>

function trial_loop ::
  "nat \<Rightarrow> nat \<Rightarrow> (nat \<Rightarrow> (nat \<times> nat) list) \<Rightarrow> (nat \<Rightarrow> fp) \<Rightarrow> nat \<Rightarrow> state \<Rightarrow> state" where
  "trial_loop SIZE NUMTRIES sched wtime t s =
     (if t < NUMTRIES
      then trial_loop SIZE NUMTRIES sched wtime (Suc t) (trial SIZE sched wtime t s)
      else s)"
  by pat_completeness auto
termination
  by (relation "measure (\<lambda>(SIZE, NUMTRIES, sched, wtime, t, s). NUMTRIES - t)") auto

declare trial_loop.simps [simp del]

section \<open>main\<close>

text \<open>
  Lines 25 to 35, from the initialisation of the arrays to the two accumulators: the
  state in which the trial loop starts.
\<close>

definition before_trials :: "nat \<Rightarrow> nat \<Rightarrow> state" where
  "before_trials SIZE NUMT =
     (let s1 = init_loop SIZE 0 (start SIZE);
          s2 = s1\<lparr>stderr := stderr s1 @ [''Using '' @ dec (int NUMT) @ '' threads\<newline>'']\<rparr>
      in s2\<lparr>maxMegaMults := Finite False 0, sum_megaMults := Finite False 0\<rparr>)"

text \<open>Lines 54 and 55, the two calls of \<^verbatim>\<open>printf\<close>.\<close>

definition report :: "nat \<Rightarrow> state \<Rightarrow> state" where
  "report NUMTRIES s =
     (let s1 = s\<lparr>stdout := stdout s @
                 [''Peak Performance = '' @ printf_8_2lf (maxMegaMults s) @
                  '' MegaMults/Sec\<newline>'']\<rparr>
      in s1\<lparr>stdout := stdout s1 @
              [''Average Performance = '' @
               printf_8_2lf (fdiv binary64 (sum_megaMults s1) (of_int_fp binary64 NUMTRIES)) @
               '' MegaMults/Sec\<newline>'']\<rparr>)"

text \<open>
  \<open>OPENMP\<close> says whether the compiler defines \<^verbatim>\<open>_OPENMP\<close>; \<open>SIZE\<close>, \<open>NUMTRIES\<close> and
  \<open>NUMT\<close> are the three macros; \<open>sched t\<close> is the execution of the parallel loop of
  trial \<open>t\<close>. The result is the exit status and the final state.
\<close>

definition main ::
  "bool \<Rightarrow> nat \<Rightarrow> nat \<Rightarrow> nat \<Rightarrow> (nat \<Rightarrow> (nat \<times> nat) list) \<Rightarrow> (nat \<Rightarrow> fp) \<Rightarrow> int \<times> state" where
  "main OPENMP SIZE NUMTRIES NUMT sched wtime =
     (if \<not> OPENMP
      then (1, (start SIZE)\<lparr>stderr := [''OpenMP is not supported here -- sorry.\<newline>'']\<rparr>)
      else (0, report NUMTRIES (trial_loop SIZE NUMTRIES sched wtime 0 (before_trials SIZE NUMT))))"

section \<open>The quantities the specification talks about\<close>

text \<open>
  The throughput sample of trial \<open>t\<close> in the specification's words:
  \<open>elementCount / (t1 - t0) / 1000000\<close>, where \<open>t0\<close> and \<open>t1\<close> are the clock
  readings before and after the parallel loop of the trial, that is the readings number
  \<open>2 * t\<close> and \<open>2 * t + 1\<close> of the run.
\<close>

definition throughput_sample :: "nat \<Rightarrow> (nat \<Rightarrow> fp) \<Rightarrow> nat \<Rightarrow> fp" where
  "throughput_sample SIZE wtime t =
     fdiv binary64
       (fdiv binary64 (of_int_fp binary64 SIZE)
          (fsub binary64 (wtime (2 * t + 1)) (wtime (2 * t))))
       (Finite False 1000000)"

text \<open>
  The events of trial \<open>t\<close> in the specification's words: a timestamp, the parallel
  loop, a timestamp. They are the clock readings number \<open>2 * t\<close> and \<open>2 * t + 1\<close>.
\<close>

definition trial_events :: "(nat \<Rightarrow> (nat \<times> nat) list) \<Rightarrow> nat \<Rightarrow> event list" where
  "trial_events sched t =
     Clock (2 * t) # map (\<lambda>(k, i). Iteration k i) (sched t) @ [Clock (2 * t + 1)]"

text \<open>The running maximum in the specification's words: \<open>peak = max(peak, throughput)\<close>.\<close>

definition max_step :: "fp \<Rightarrow> fp \<Rightarrow> fp" where
  "max_step peak x = (if fgt x peak then x else peak)"

text \<open>
  The sign bit, the values that are not negative (\<open>+0\<close>, the positive numbers and
  \<open>+\<infinity>\<close>), the finite values, and the rational number a finite value stands for.
\<close>

fun sign_bit :: "fp \<Rightarrow> bool" where
  "sign_bit (Finite s q) = s"
| "sign_bit (Infinity s) = s"
| "sign_bit NaN = True"

fun is_nonneg :: "fp \<Rightarrow> bool" where
  "is_nonneg (Finite s q) = (\<not> s \<and> 0 \<le> q)"
| "is_nonneg (Infinity s) = (\<not> s)"
| "is_nonneg NaN = False"

fun is_finite :: "fp \<Rightarrow> bool" where
  "is_finite (Finite s q) = True"
| "is_finite (Infinity s) = False"
| "is_finite NaN = False"

fun value_of :: "fp \<Rightarrow> rat" where
  "value_of (Finite s q) = val s q"
| "value_of (Infinity s) = 0"
| "value_of NaN = 0"

text \<open>The configuration of the source: \<^verbatim>\<open>SIZE 32742\<close>, \<^verbatim>\<open>NUMTRIES 1000\<close>, \<^verbatim>\<open>NUMT 1\<close>.\<close>

definition SIZE_src :: nat where "SIZE_src = 32742"
definition NUMTRIES_src :: nat where "NUMTRIES_src = 1000"
definition NUMT_src :: nat where "NUMT_src = 1"

section \<open>Properties of the loops\<close>

subsection \<open>Initialisation\<close>

lemma one32: "mk binary32 False 1 = Finite False 1"
  by code_simp
lemma two32: "mk binary32 False 2 = Finite False 2"
  by code_simp
lemma one_times_two: "fmul binary32 (Finite False 1) (Finite False 2) = Finite False 2"
  by code_simp
lemma feq_two: "feq (Finite False 2) (Finite False 2)"
  by (simp add: feq_def)

lemma init_loop_stop: "\<not> i < SIZE \<Longrightarrow> init_loop SIZE i s = s"
  by (subst init_loop.simps) simp

lemma init_loop_step:
  "i < SIZE \<Longrightarrow> init_loop SIZE i s =
     init_loop SIZE (Suc i) (s\<lparr>A := (A s)[i := Finite False 1], B := (B s)[i := Finite False 2]\<rparr>)"
  by (subst init_loop.simps) (simp add: one32 two32)

lemma init_loop_length:
  "length (A (init_loop SIZE i s)) = length (A s) \<and> length (B (init_loop SIZE i s)) = length (B s)"
proof (induction SIZE i s rule: init_loop.induct)
  case (1 SIZE i s)
  then show ?case
    by (cases "i < SIZE") (simp_all add: init_loop_stop init_loop_step one32 two32)
qed

lemma init_loop_nth:
  "j < length (A s) \<Longrightarrow> j < length (B s) \<Longrightarrow>
   A (init_loop SIZE i s) ! j = (if i \<le> j \<and> j < SIZE then Finite False 1 else A s ! j) \<and>
   B (init_loop SIZE i s) ! j = (if i \<le> j \<and> j < SIZE then Finite False 2 else B s ! j)"
proof (induction SIZE i s rule: init_loop.induct)
  case (1 SIZE i s)
  then show ?case
    by (cases "i < SIZE") (auto simp: init_loop_stop init_loop_step nth_list_update one32 two32)
qed

lemma init_loop_frame:
  "C (init_loop SIZE i s) = C s \<and> stderr (init_loop SIZE i s) = stderr s \<and>
   stdout (init_loop SIZE i s) = stdout s \<and> wtime_calls (init_loop SIZE i s) = wtime_calls s \<and>
   trace (init_loop SIZE i s) = trace s"
proof (induction SIZE i s rule: init_loop.induct)
  case (1 SIZE i s)
  then show ?case
    by (cases "i < SIZE") (simp_all add: init_loop_stop init_loop_step one32 two32)
qed

lemma before_trials_A: "A (before_trials SIZE NUMT) = replicate SIZE (Finite False 1)"
  by (rule nth_equalityI)
     (simp_all add: before_trials_def Let_def init_loop_length init_loop_nth start_def)

lemma before_trials_B: "B (before_trials SIZE NUMT) = replicate SIZE (Finite False 2)"
  by (rule nth_equalityI)
     (simp_all add: before_trials_def Let_def init_loop_length init_loop_nth start_def)

lemma before_trials_C: "C (before_trials SIZE NUMT) = replicate SIZE (Finite False 0)"
  by (simp add: before_trials_def Let_def init_loop_frame start_def)

lemma before_trials_wtime_calls: "wtime_calls (before_trials SIZE NUMT) = 0"
  by (simp add: before_trials_def Let_def init_loop_frame start_def)

lemma before_trials_trace: "trace (before_trials SIZE NUMT) = []"
  by (simp add: before_trials_def Let_def init_loop_frame start_def)

lemma before_trials_stdout: "stdout (before_trials SIZE NUMT) = []"
  by (simp add: before_trials_def Let_def init_loop_frame start_def)

lemma before_trials_scalars:
  "maxMegaMults (before_trials SIZE NUMT) = Finite False 0 \<and>
   sum_megaMults (before_trials SIZE NUMT) = Finite False 0"
  by (simp add: before_trials_def Let_def)

subsection \<open>The parallel loop\<close>

lemma body_frame:
  "A (body i s) = A s \<and> B (body i s) = B s \<and> stderr (body i s) = stderr s \<and>
   stdout (body i s) = stdout s \<and> wtime_calls (body i s) = wtime_calls s \<and>
   maxMegaMults (body i s) = maxMegaMults s \<and> sum_megaMults (body i s) = sum_megaMults s \<and>
   length (C (body i s)) = length (C s) \<and> trace (body i s) = trace s"
  by (simp add: body_def)

lemma par_for_frame:
  "A (par_for tr s) = A s \<and> B (par_for tr s) = B s \<and> stderr (par_for tr s) = stderr s \<and>
   stdout (par_for tr s) = stdout s \<and> wtime_calls (par_for tr s) = wtime_calls s \<and>
   maxMegaMults (par_for tr s) = maxMegaMults s \<and>
   sum_megaMults (par_for tr s) = sum_megaMults s \<and>
   length (C (par_for tr s)) = length (C s)"
proof (induction tr arbitrary: s)
  case Nil
  show ?case by simp
next
  case (Cons p tr)
  obtain k i where p: "p = (k, i)" by (cases p)
  show ?case unfolding p par_for.simps
    by (simp add: Cons.IH [of "body i (s\<lparr>trace := trace s @ [Iteration k i]\<rparr>)"] body_frame)
qed

lemma par_for_trace:
  "trace (par_for tr s) = trace s @ map (\<lambda>(k, i). Iteration k i) tr"
proof (induction tr arbitrary: s)
  case Nil
  show ?case by simp
next
  case (Cons p tr)
  obtain k i where p: "p = (k, i)" by (cases p)
  show ?case unfolding p par_for.simps
    by (simp add: Cons.IH [of "body i (s\<lparr>trace := trace s @ [Iteration k i]\<rparr>)"] body_frame)
qed

lemma par_for_nth:
  "j < length (C s) \<Longrightarrow>
   C (par_for tr s) ! j =
     (if j \<in> snd ` set tr then fmul binary32 (A s ! j) (B s ! j) else C s ! j)"
proof (induction tr arbitrary: s)
  case Nil
  show ?case by simp
next
  case (Cons p tr)
  obtain k i where p: "p = (k, i)" by (cases p)
  let ?s = "body i (s\<lparr>trace := trace s @ [Iteration k i]\<rparr>)"
  have len: "j < length (C ?s)"
    using Cons.prems by (simp add: body_frame)
  have AB: "A ?s = A s" "B ?s = B s"
    by (simp_all add: body_frame)
  have "C ?s ! j = (if j = i then fmul binary32 (A s ! j) (B s ! j) else C s ! j)"
    using Cons.prems by (simp add: body_def nth_list_update)
  then show ?case
    unfolding p par_for.simps using Cons.IH [OF len] AB by auto
qed

lemma par_for_C_cong:
  assumes "A s' = A s" and "B s' = B s" and "C s' = C s"
  shows "C (par_for tr s') = C (par_for tr s)"
proof (rule nth_equalityI)
  show "length (C (par_for tr s')) = length (C (par_for tr s))"
    using assms(3) by (simp add: par_for_frame)
next
  fix j assume "j < length (C (par_for tr s'))"
  then have "j < length (C s')" "j < length (C s)"
    using assms(3) by (simp_all add: par_for_frame)
  then show "C (par_for tr s') ! j = C (par_for tr s) ! j"
    using assms by (simp add: par_for_nth)
qed

subsection \<open>One trial\<close>

lemma valid_schedule_covers:
  "valid_schedule NUMT SIZE tr \<Longrightarrow> j < SIZE \<Longrightarrow> j \<in> snd ` set tr"
  by (simp add: valid_schedule_def)

lemma par_for_computes:
  assumes "valid_schedule NUMT SIZE tr" and "length (C s) = SIZE" and "j < SIZE"
  shows "C (par_for tr s) ! j = fmul binary32 (A s ! j) (B s ! j)"
  using assms par_for_nth [of j s tr] valid_schedule_covers [OF assms(1,3)] by simp

lemma par_for_schedule_independent:
  assumes "valid_schedule NUMT SIZE tr" and "valid_schedule NUMT' SIZE tr'"
    and "length (C s) = SIZE"
  shows "C (par_for tr s) = C (par_for tr' s)"
proof (rule nth_equalityI)
  show "length (C (par_for tr s)) = length (C (par_for tr' s))"
    by (simp add: par_for_frame)
next
  fix j assume "j < length (C (par_for tr s))"
  then have j: "j < SIZE" using assms(3) by (simp add: par_for_frame)
  show "C (par_for tr s) ! j = C (par_for tr' s) ! j"
    by (simp only: par_for_computes [OF assms(1) assms(3) j]
                   par_for_computes [OF assms(2) assms(3) j])
qed

lemma trial_frame:
  "A (trial SIZE sched wtime t s) = A s \<and> B (trial SIZE sched wtime t s) = B s \<and>
   stderr (trial SIZE sched wtime t s) = stderr s \<and>
   stdout (trial SIZE sched wtime t s) = stdout s \<and>
   wtime_calls (trial SIZE sched wtime t s) = wtime_calls s + 2 \<and>
   C (trial SIZE sched wtime t s) = C (par_for (sched t) s)"
proof -
  have "C (par_for tr (s\<lparr>wtime_calls := n, trace := es\<rparr>)) = C (par_for tr s)" for tr n es
    by (rule par_for_C_cong) simp_all
  then show ?thesis
    by (simp add: trial_def omp_get_wtime_def Let_def par_for_frame)
qed

text \<open>The events of a trial: a clock reading, the iterations of the loop, a clock reading.\<close>

lemma trial_trace:
  "trace (trial SIZE sched wtime t s) =
     trace s @ [Clock (wtime_calls s)] @ map (\<lambda>(k, i). Iteration k i) (sched t) @
     [Clock (Suc (wtime_calls s))]"
  by (simp add: trial_def omp_get_wtime_def Let_def par_for_frame par_for_trace)

lemma trial_loop_stop: "\<not> t < NUMTRIES \<Longrightarrow> trial_loop SIZE NUMTRIES sched wtime t s = s"
  by (subst trial_loop.simps) simp

lemma trial_loop_step:
  "t < NUMTRIES \<Longrightarrow>
   trial_loop SIZE NUMTRIES sched wtime t s =
     trial_loop SIZE NUMTRIES sched wtime (Suc t) (trial SIZE sched wtime t s)"
  by (subst trial_loop.simps) simp

lemma trial_loop_frame:
  "A (trial_loop SIZE NUMTRIES sched wtime t s) = A s \<and>
   B (trial_loop SIZE NUMTRIES sched wtime t s) = B s \<and>
   stderr (trial_loop SIZE NUMTRIES sched wtime t s) = stderr s \<and>
   stdout (trial_loop SIZE NUMTRIES sched wtime t s) = stdout s \<and>
   length (C (trial_loop SIZE NUMTRIES sched wtime t s)) = length (C s) \<and>
   wtime_calls (trial_loop SIZE NUMTRIES sched wtime t s) = wtime_calls s + 2 * (NUMTRIES - t)"
proof (induction SIZE NUMTRIES sched wtime t s rule: trial_loop.induct)
  case (1 SIZE NUMTRIES sched wtime t s)
  show ?case
  proof (cases "t < NUMTRIES")
    case True
    then show ?thesis
      using "1.IH" [OF True]
      by (simp add: trial_loop_step trial_frame par_for_frame Suc_diff_Suc)
  next
    case False
    then show ?thesis by (simp add: trial_loop_stop)
  qed
qed

lemma trial_loop_C:
  assumes "\<forall>t'<NUMTRIES. valid_schedule NUMT SIZE (sched t')"
    and "t < NUMTRIES"
    and "A s = replicate SIZE (Finite False 1)" and "B s = replicate SIZE (Finite False 2)"
    and "length (C s) = SIZE"
  shows "C (trial_loop SIZE NUMTRIES sched wtime t s) = replicate SIZE (Finite False 2)"
  using assms
proof (induction SIZE NUMTRIES sched wtime t s rule: trial_loop.induct)
  case (1 SIZE NUMTRIES sched wtime t s)
  let ?s' = "trial SIZE sched wtime t s"
  have v: "valid_schedule NUMT SIZE (sched t)"
    using "1.prems"(1,2) by simp
  have C': "C ?s' = replicate SIZE (Finite False 2)"
  proof (rule nth_equalityI)
    show "length (C ?s') = length (replicate SIZE (Finite False 2))"
      using "1.prems"(5) by (simp add: trial_frame par_for_frame)
  next
    fix j assume "j < length (C ?s')"
    then have j: "j < SIZE"
      using "1.prems"(5) by (simp add: trial_frame par_for_frame)
    have "C ?s' ! j = fmul binary32 (A s ! j) (B s ! j)"
      using par_for_computes [OF v "1.prems"(5) j] by (simp add: trial_frame)
    then show "C ?s' ! j = replicate SIZE (Finite False 2) ! j"
      using j "1.prems"(3,4) by (simp add: two32)
  qed
  show ?case
  proof (cases "Suc t < NUMTRIES")
    case True
    have "C (trial_loop SIZE NUMTRIES sched wtime (Suc t) ?s') = replicate SIZE (Finite False 2)"
      using "1.IH" [OF "1.prems"(2) "1.prems"(1) True] "1.prems"(3,4) C'
      by (simp add: trial_frame)
    then show ?thesis
      using "1.prems"(2) by (simp add: trial_loop_step)
  next
    case False
    then show ?thesis
      using "1.prems"(2) C' by (simp add: trial_loop_step trial_loop_stop)
  qed
qed

lemma report_frame:
  "A (report NUMTRIES s) = A s \<and> B (report NUMTRIES s) = B s \<and> C (report NUMTRIES s) = C s \<and>
   stderr (report NUMTRIES s) = stderr s \<and> wtime_calls (report NUMTRIES s) = wtime_calls s"
  by (simp add: report_def Let_def)

section \<open>Arrays: initialisation, frame and the parallel loop\<close>

text \<open>
  Claim C7. When the trial loop starts (after lines 25 to 35, before any call of
  \<^verbatim>\<open>omp_get_wtime\<close>), \<open>A\<close> is \<open>SIZE\<close> times 1.0 and \<open>B\<close> is \<open>SIZE\<close> times 2.0,
  for every \<open>SIZE\<close>.
\<close>

theorem arrays_initialised:
  "A (before_trials SIZE NUMT) = replicate SIZE (Finite False 1) \<and>
   B (before_trials SIZE NUMT) = replicate SIZE (Finite False 2) \<and>
   wtime_calls (before_trials SIZE NUMT) = 0"
  by (simp add: before_trials_A before_trials_B before_trials_wtime_calls)

text \<open>
  Claim C8. A trial, and the whole trial loop from any trial \<open>t\<close> on, leaves \<open>A\<close> and
  \<open>B\<close> as they were; the two output streams are not written either.
\<close>

theorem trials_keep_inputs:
  "A (trial SIZE sched wtime t s) = A s \<and> B (trial SIZE sched wtime t s) = B s \<and>
   stderr (trial SIZE sched wtime t s) = stderr s \<and>
   stdout (trial SIZE sched wtime t s) = stdout s \<and>
   A (trial_loop SIZE NUMTRIES sched wtime t s) = A s \<and>
   B (trial_loop SIZE NUMTRIES sched wtime t s) = B s \<and>
   stderr (trial_loop SIZE NUMTRIES sched wtime t s) = stderr s \<and>
   stdout (trial_loop SIZE NUMTRIES sched wtime t s) = stdout s"
  by (simp add: trial_frame trial_loop_frame)

text \<open>
  Claim C1. After \<open>n \<ge> 1\<close> trials of a run, whatever the team size and however OpenMP
  distributed and interleaved the iterations, every \<open>C[i]\<close> compares equal to
  \<open>A[i] * B[i]\<close>, and is 2.0.
\<close>

theorem trial_elementwise_product:
  assumes "\<forall>t<n. valid_schedule NUMT SIZE (sched t)" and "0 < n" and "i < SIZE"
  shows "feq (C (trial_loop SIZE n sched wtime 0 (before_trials SIZE NUMT)) ! i)
           (fmul binary32 (A (trial_loop SIZE n sched wtime 0 (before_trials SIZE NUMT)) ! i)
                          (B (trial_loop SIZE n sched wtime 0 (before_trials SIZE NUMT)) ! i)) \<and>
         C (trial_loop SIZE n sched wtime 0 (before_trials SIZE NUMT)) ! i = Finite False 2"
proof -
  let ?s = "trial_loop SIZE n sched wtime 0 (before_trials SIZE NUMT)"
  have "C ?s = replicate SIZE (Finite False 2)"
    by (rule trial_loop_C [OF assms(1,2)]) (simp_all add: before_trials_A before_trials_B before_trials_C)
  moreover have "A ?s = replicate SIZE (Finite False 1)" "B ?s = replicate SIZE (Finite False 2)"
    by (simp_all add: trial_loop_frame before_trials_A before_trials_B)
  ultimately show ?thesis
    using assms(3) by (simp add: two32 feq_def)
qed

theorem trial_elementwise_product_witness:
  "valid_schedule 2 4 [(0, 0), (1, 2), (0, 1), (1, 3)] \<and>
   C (trial_loop 4 1 (\<lambda>t. [(0, 0), (1, 2), (0, 1), (1, 3)]) (\<lambda>k. Finite False (of_nat k)) 0
        (before_trials 4 2)) ! 3 = Finite False 2"
proof -
  have v: "valid_schedule 2 4 [(0, 0), (1, 2), (0, 1), (1, 3)]"
    by (auto simp: valid_schedule_def)
  then have "\<forall>t<1. valid_schedule 2 4 ((\<lambda>t. [(0, 0), (1, 2), (0, 1), (1, 3)]) t)"
    by simp
  from v trial_elementwise_product [OF this, of 3 "\<lambda>k. Finite False (of_nat k)"]
  show ?thesis by simp
qed

text \<open>
  Claim C2. The contents of \<open>C\<close> at the end of a run with one thread are those of a run
  with any number \<open>N\<close> of threads, whatever the two clocks returned; and a single
  parallel loop started in the same state gives the same \<open>C\<close> under any two executions.
\<close>

theorem thread_count_irrelevant:
  assumes "\<forall>t<NUMTRIES. valid_schedule 1 SIZE (sched1 t)"
    and "\<forall>t<NUMTRIES. valid_schedule N SIZE (schedN t)"
  shows "C (snd (main True SIZE NUMTRIES 1 sched1 wtime1)) =
         C (snd (main True SIZE NUMTRIES N schedN wtimeN)) \<and>
         (\<forall>t<NUMTRIES. length (C s) = SIZE \<longrightarrow>
            C (par_for (sched1 t) s) = C (par_for (schedN t) s))"
proof -
  have run: "C (trial_loop SIZE NUMTRIES sched wtime 0 (before_trials SIZE NUMT)) =
      (if NUMTRIES = 0 then replicate SIZE (Finite False 0) else replicate SIZE (Finite False 2))"
    if "\<forall>t<NUMTRIES. valid_schedule NUMT SIZE (sched t)" for NUMT sched wtime
  proof (cases "NUMTRIES = 0")
    case True
    then show ?thesis by (simp add: trial_loop_stop before_trials_C)
  next
    case False
    then have "0 < NUMTRIES" by simp
    from trial_loop_C [OF that this] False show ?thesis
      by (simp add: before_trials_A before_trials_B before_trials_C)
  qed
  have "C (trial_loop SIZE NUMTRIES sched1 wtime1 0 (before_trials SIZE 1)) =
        C (trial_loop SIZE NUMTRIES schedN wtimeN 0 (before_trials SIZE N))"
    by (simp only: run [OF assms(1)] run [OF assms(2)])
  then have "C (snd (main True SIZE NUMTRIES 1 sched1 wtime1)) =
        C (snd (main True SIZE NUMTRIES N schedN wtimeN))"
    by (simp add: main_def report_frame)
  moreover have "\<forall>t<NUMTRIES. length (C s) = SIZE \<longrightarrow>
      C (par_for (sched1 t) s) = C (par_for (schedN t) s)"
    using assms par_for_schedule_independent by blast
  ultimately show ?thesis by simp
qed

theorem thread_count_irrelevant_witness:
  "valid_schedule 1 4 [(0, 0), (0, 1), (0, 2), (0, 3)] \<and>
   valid_schedule 3 4 [(2, 3), (0, 0), (1, 2), (0, 1)] \<and>
   C (snd (main True 4 1 1 (\<lambda>t. [(0, 0), (0, 1), (0, 2), (0, 3)]) (\<lambda>k. Finite False (of_nat k)))) =
   C (snd (main True 4 1 3 (\<lambda>t. [(2, 3), (0, 0), (1, 2), (0, 1)]) (\<lambda>k. Finite False (of_nat (2 * k)))))"
proof -
  have v1: "valid_schedule 1 4 [(0, 0), (0, 1), (0, 2), (0, 3)]"
    by (auto simp: valid_schedule_def)
  have v3: "valid_schedule 3 4 [(2, 3), (0, 0), (1, 2), (0, 1)]"
    by (auto simp: valid_schedule_def)
  have a1: "\<forall>t<1. valid_schedule 1 4 ((\<lambda>t. [(0, 0), (0, 1), (0, 2), (0, 3)]) t)"
    using v1 by simp
  have a3: "\<forall>t<1. valid_schedule 3 4 ((\<lambda>t. [(2, 3), (0, 0), (1, 2), (0, 1)]) t)"
    using v3 by simp
  from v1 v3 thread_count_irrelevant [OF a1 a3, of "\<lambda>k. Finite False (of_nat k)"
        "\<lambda>k. Finite False (of_nat (2 * k))"]
  show ?thesis by simp
qed


section \<open>The two accumulators\<close>

lemma trial_scalars:
  assumes "wtime_calls s = 2 * t"
  shows "sum_megaMults (trial SIZE sched wtime t s) =
           fadd binary64 (sum_megaMults s) (throughput_sample SIZE wtime t) \<and>
         maxMegaMults (trial SIZE sched wtime t s) =
           max_step (maxMegaMults s) (throughput_sample SIZE wtime t)"
  using assms
  by (simp add: trial_def omp_get_wtime_def Let_def par_for_frame throughput_sample_def
      max_step_def)

lemma trial_loop_scalars:
  assumes "wtime_calls s = 2 * t" and "t \<le> NUMTRIES"
  shows "sum_megaMults (trial_loop SIZE NUMTRIES sched wtime t s) =
           foldl (fadd binary64) (sum_megaMults s)
             (map (throughput_sample SIZE wtime) [t..<NUMTRIES]) \<and>
         maxMegaMults (trial_loop SIZE NUMTRIES sched wtime t s) =
           foldl max_step (maxMegaMults s) (map (throughput_sample SIZE wtime) [t..<NUMTRIES])"
  using assms
proof (induction SIZE NUMTRIES sched wtime t s rule: trial_loop.induct)
  case (1 SIZE NUMTRIES sched wtime t s)
  show ?case
  proof (cases "t < NUMTRIES")
    case True
    have calls: "wtime_calls (trial SIZE sched wtime t s) = 2 * Suc t"
      using "1.prems"(1) by (simp add: trial_frame)
    from "1.IH" [OF True calls] True trial_scalars [OF "1.prems"(1)]
    show ?thesis
      by (simp add: trial_loop_step upt_conv_Cons)
  next
    case False
    then show ?thesis using "1.prems"(2) by (simp add: trial_loop_stop)
  qed
qed

lemma trial_loop_trace:
  assumes "wtime_calls s = 2 * t" and "t \<le> NUMTRIES"
  shows "trace (trial_loop SIZE NUMTRIES sched wtime t s) =
           trace s @ concat (map (trial_events sched) [t..<NUMTRIES])"
  using assms
proof (induction SIZE NUMTRIES sched wtime t s rule: trial_loop.induct)
  case (1 SIZE NUMTRIES sched wtime t s)
  show ?case
  proof (cases "t < NUMTRIES")
    case True
    have calls: "wtime_calls (trial SIZE sched wtime t s) = 2 * Suc t"
      using "1.prems"(1) by (simp add: trial_frame)
    have "trace (trial SIZE sched wtime t s) = trace s @ trial_events sched t"
      using "1.prems"(1) by (simp add: trial_trace trial_events_def)
    with "1.IH" [OF True calls] True show ?thesis
      by (simp add: trial_loop_step upt_conv_Cons)
  next
    case False
    then show ?thesis using "1.prems"(2) by (simp add: trial_loop_stop)
  qed
qed

lemma run_trace:
  "trace (trial_loop SIZE NUMTRIES sched wtime 0 (before_trials SIZE NUMT)) =
     concat (map (trial_events sched) [0..<NUMTRIES])"
  using trial_loop_trace [of "before_trials SIZE NUMT" 0 NUMTRIES SIZE sched wtime]
  by (simp add: before_trials_wtime_calls before_trials_trace)

lemma run_scalars:
  "sum_megaMults (trial_loop SIZE NUMTRIES sched wtime 0 (before_trials SIZE NUMT)) =
     foldl (fadd binary64) (Finite False 0)
       (map (throughput_sample SIZE wtime) [0..<NUMTRIES]) \<and>
   maxMegaMults (trial_loop SIZE NUMTRIES sched wtime 0 (before_trials SIZE NUMT)) =
     foldl max_step (Finite False 0) (map (throughput_sample SIZE wtime) [0..<NUMTRIES])"
  using trial_loop_scalars [of "before_trials SIZE NUMT" 0 NUMTRIES SIZE sched wtime]
  by (simp add: before_trials_wtime_calls before_trials_scalars)

lemma main_stdout:
  "stdout (snd (main True SIZE NUMTRIES NUMT sched wtime)) =
     [''Peak Performance = '' @
        printf_8_2lf (foldl max_step (Finite False 0)
          (map (throughput_sample SIZE wtime) [0..<NUMTRIES])) @ '' MegaMults/Sec\<newline>'',
      ''Average Performance = '' @
        printf_8_2lf (fdiv binary64
          (foldl (fadd binary64) (Finite False 0)
             (map (throughput_sample SIZE wtime) [0..<NUMTRIES]))
          (of_int_fp binary64 NUMTRIES)) @ '' MegaMults/Sec\<newline>'']"
  by (simp add: main_def report_def Let_def run_scalars trial_loop_frame before_trials_stdout)

section \<open>Rounding\<close>

lemma two_powi_nat: "0 \<le> k \<Longrightarrow> (2::rat) powi k = of_int (2 ^ nat k)"
  by (simp add: power_int_def)

lemma two_powi_neg: "0 \<le> k \<Longrightarrow> (2::rat) powi (- k) = 1 / of_int (2 ^ nat k)"
  by (simp add: power_int_minus_divide power_int_def power_divide)

lemma ilog2_bounds:
  assumes "0 < q"
  shows "2 powi ilog2 q \<le> q \<and> q < 2 powi (ilog2 q + 1)"
proof (cases "1 \<le> q")
  case True
  define n where "n = \<lfloor>q\<rfloor>"
  have n: "0 < n" using True by (simp add: n_def)
  have e: "ilog2 q = bitlen n - 1" using True by (simp add: ilog2_def n_def)
  have b: "0 \<le> bitlen n - 1"
    using n bitlen_eq_zero_iff [of n] bitlen_nonneg [of n] by linarith
  from bitlen_bounds [OF n] have lo: "2 ^ nat (bitlen n - 1) \<le> n" and hi: "n + 1 \<le> 2 ^ nat (bitlen n)"
    by simp_all
  have "(2::rat) powi (bitlen n - 1) = of_int (2 ^ nat (bitlen n - 1))"
    using b by (rule two_powi_nat)
  also have "\<dots> \<le> of_int n" using lo by (simp only: of_int_le_iff)
  also have "\<dots> \<le> q" by (simp add: n_def)
  finally have 1: "2 powi ilog2 q \<le> q" by (simp add: e)
  have "q < of_int (n + 1)" using floor_correct [of q] by (simp add: n_def)
  also have "\<dots> \<le> of_int (2 ^ nat (bitlen n))" using hi by (simp only: of_int_le_iff)
  also have "\<dots> = 2 powi (bitlen n)" using two_powi_nat [of "bitlen n"] bitlen_nonneg [of n] by simp
  finally have 2: "q < 2 powi (ilog2 q + 1)" by (simp add: e)
  from 1 2 show ?thesis by simp
next
  case False
  define n where "n = \<lceil>1 / q\<rceil> - 1"
  have r: "1 < 1 / q" using False assms by simp
  then have n: "0 < n" unfolding n_def by (simp add: less_ceiling_iff)
  have e: "ilog2 q = - bitlen n" using False by (simp add: ilog2_def n_def)
  have b: "0 \<le> bitlen n - 1"
    using n bitlen_eq_zero_iff [of n] bitlen_nonneg [of n] by linarith
  from bitlen_bounds [OF n] have lo: "2 ^ nat (bitlen n - 1) \<le> n" and hi: "n + 1 \<le> 2 ^ nat (bitlen n)"
    by simp_all
  have up: "1 / q \<le> of_int (n + 1)" by (simp add: n_def)
  have dn: "of_int n < 1 / q" unfolding n_def using ceiling_correct [of "1 / q"] by simp
  have "1 / q \<le> of_int (2 ^ nat (bitlen n))"
    using up hi by (meson of_int_le_iff order_trans)
  then have "1 \<le> q * of_int (2 ^ nat (bitlen n))"
    using assms by (simp add: field_simps)
  then have "1 / of_int (2 ^ nat (bitlen n)) \<le> q"
    by (simp add: pos_divide_le_eq)
  then have 1: "2 powi ilog2 q \<le> q"
    unfolding e using two_powi_neg [of "bitlen n"] bitlen_nonneg [of n] by simp
  have "of_int (2 ^ nat (bitlen n - 1)) < 1 / q"
    using lo dn by (meson of_int_le_iff order_le_less_trans)
  then have "q * of_int (2 ^ nat (bitlen n - 1)) < 1"
    using assms by (simp add: field_simps)
  then have "q < 1 / of_int (2 ^ nat (bitlen n - 1))"
    by (simp add: pos_less_divide_eq)
  moreover have "ilog2 q + 1 = - (bitlen n - 1)" by (simp add: e)
  ultimately have 2: "q < 2 powi (ilog2 q + 1)"
    using two_powi_neg [OF b] by simp
  from 1 2 show ?thesis by simp
qed

lemma ilog2_unique:
  assumes "0 < q" and "2 powi e \<le> q" and "q < 2 powi (e + 1)"
  shows "ilog2 q = e"
proof (rule antisym)
  show "ilog2 q \<le> e"
  proof (rule ccontr)
    assume "\<not> ilog2 q \<le> e"
    then have "e + 1 \<le> ilog2 q" by simp
    then have "(2::rat) powi (e + 1) \<le> 2 powi ilog2 q"
      by (rule power_int_increasing) simp
    with ilog2_bounds [OF assms(1)] assms(3) show False by simp
  qed
  show "e \<le> ilog2 q"
  proof (rule ccontr)
    assume "\<not> e \<le> ilog2 q"
    then have "ilog2 q + 1 \<le> e" by simp
    then have "(2::rat) powi (ilog2 q + 1) \<le> 2 powi e"
      by (rule power_int_increasing) simp
    with ilog2_bounds [OF assms(1)] assms(2) show False by simp
  qed
qed

lemma rne_cases: "rne q = \<lfloor>q\<rfloor> \<or> rne q = \<lfloor>q\<rfloor> + 1 \<and> of_int \<lfloor>q\<rfloor> < q"
  by (auto simp: rne_def Let_def)

lemma rne_of_int [simp]: "rne (of_int k) = k"
  by (simp add: rne_def)

lemma rne_lower: "of_int k \<le> q \<Longrightarrow> k \<le> rne q"
proof -
  assume "of_int k \<le> q"
  then have "k \<le> \<lfloor>q\<rfloor>" by (simp add: le_floor_iff)
  then show ?thesis using rne_cases [of q] by linarith
qed

lemma rne_upper: "q \<le> of_int k \<Longrightarrow> rne q \<le> k"
proof -
  assume "q \<le> of_int k"
  then have "\<lfloor>q\<rfloor> \<le> k" by (simp add: floor_le_iff) 
  moreover have "\<lfloor>q\<rfloor> < k" if "of_int \<lfloor>q\<rfloor> < q"
    using that \<open>q \<le> of_int k\<close> by (metis floor_less_iff less_le_trans not_le of_int_floor_le order_less_le)
  ultimately show ?thesis using rne_cases [of q] by auto
qed

lemma ulp_pos: "0 < ulp fmt q"
  by (simp add: ulp_def)

lemma rnd_nonneg: "0 \<le> rnd fmt q"
proof (cases "q \<le> 0")
  case True
  then show ?thesis by (simp add: rnd_def Let_def)
next
  case False
  then have "0 \<le> q / ulp fmt q" using ulp_pos [of fmt q] by simp
  then have "0 \<le> rne (q / ulp fmt q)" using rne_lower [of 0] by simp
  then show ?thesis using False ulp_pos [of fmt q] by (simp add: rnd_def Let_def)
qed

lemma powi_less_exp:
  assumes "(2::rat) powi a \<le> q" and "q < 2 powi b"
  shows "a < b"
proof (rule ccontr)
  assume "\<not> a < b"
  then have "b \<le> a" by simp
  then have "(2::rat) powi b \<le> 2 powi a" by (rule power_int_increasing) simp
  with assms show False by simp
qed

text \<open>A multiple of a power of two that fits the precision and the exponent range is not changed.\<close>

lemma rnd_exact:
  assumes m: "0 < m" "m < 2 ^ prec fmt" and j: "1 - emax fmt - int (prec fmt) + 1 \<le> j"
  shows "rnd fmt (of_int m * 2 powi j) = of_int m * 2 powi j"
proof -
  define q :: rat where "q = of_int m * 2 powi j"
  define k where "k = max (ilog2 q) (1 - emax fmt) - int (prec fmt) + 1"
  have q: "0 < q" using m(1) by (simp add: q_def)
  have "of_int m < (2::rat) ^ prec fmt"
    using m(2) by (metis of_int_less_iff of_int_numeral of_int_power)
  then have "q < 2 ^ prec fmt * 2 powi j"
    unfolding q_def by (simp add: mult_strict_right_mono)
  also have "\<dots> = 2 powi (int (prec fmt) + j)"
    by (simp add: power_int_add)
  finally have "q < 2 powi (int (prec fmt) + j)" .
  with ilog2_bounds [OF q] have "ilog2 q < int (prec fmt) + j"
    using powi_less_exp by blast
  with j have kj: "k \<le> j" by (simp add: k_def)
  have u: "ulp fmt q = 2 powi k" by (simp add: ulp_def k_def)
  have "q / 2 powi k = of_int m * 2 powi (j - k)"
    by (simp add: q_def power_int_diff)
  also have "\<dots> = of_int (m * 2 ^ nat (j - k))"
    using kj by (simp add: two_powi_nat)
  finally have d: "q / 2 powi k = of_int (m * 2 ^ nat (j - k))" .
  have "rnd fmt q = of_int (rne (q / 2 powi k)) * 2 powi k"
    using q by (simp add: rnd_def u Let_def)
  also have "\<dots> = q / 2 powi k * 2 powi k"
    by (simp only: d rne_of_int)
  also have "\<dots> = q" by simp
  finally show ?thesis by (simp add: q_def)
qed

text \<open>The shape of a rounded value: at most \<open>2 ^ prec\<close> units in the last place.\<close>

lemma rnd_shape:
  assumes "0 < q"
  shows "\<exists>M. rnd fmt q = of_int M * 2 powi (max (ilog2 q) (1 - emax fmt) - int (prec fmt) + 1) \<and>
             0 \<le> M \<and> M \<le> 2 ^ prec fmt"
proof -
  define k where "k = max (ilog2 q) (1 - emax fmt) - int (prec fmt) + 1"
  define M where "M = rne (q / 2 powi k)"
  have u: "ulp fmt q = 2 powi k" by (simp add: ulp_def k_def)
  have 1: "rnd fmt q = of_int M * 2 powi k"
    using assms by (simp add: rnd_def u M_def Let_def)
  have "0 \<le> q / 2 powi k" using assms by simp
  then have 2: "0 \<le> M" unfolding M_def using rne_lower [of 0] by simp
  have "ilog2 q + 1 - k \<le> int (prec fmt)" by (simp add: k_def)
  then have le: "(2::rat) powi (ilog2 q + 1 - k) \<le> 2 powi int (prec fmt)"
    by (rule power_int_increasing) simp
  have "q / 2 powi k < 2 powi (ilog2 q + 1) / 2 powi k"
    using ilog2_bounds [OF assms] by (simp add: divide_strict_right_mono)
  also have "\<dots> = 2 powi (ilog2 q + 1 - k)"
    by (simp add: power_int_diff)
  finally have "q / 2 powi k \<le> of_int (2 ^ prec fmt)"
    using le by simp
  then have 3: "M \<le> 2 ^ prec fmt" unfolding M_def by (rule rne_upper)
  from 1 2 3 show ?thesis unfolding k_def by blast
qed

lemma rnd_zero [simp]: "rnd fmt 0 = 0"
  by (simp add: rnd_def Let_def)

lemma rnd_idem:
  assumes p: "0 < prec fmt"
  shows "rnd fmt (rnd fmt q) = rnd fmt q"
proof (cases "0 < q")
  case False
  then show ?thesis by (simp add: rnd_def Let_def)
next
  case True
  define k where "k = max (ilog2 q) (1 - emax fmt) - int (prec fmt) + 1"
  from rnd_shape [OF True, of fmt] obtain M where
    r: "rnd fmt q = of_int M * 2 powi k" and M: "0 \<le> M" "M \<le> 2 ^ prec fmt"
    unfolding k_def by blast
  have k: "1 - emax fmt - int (prec fmt) + 1 \<le> k" by (simp add: k_def)
  consider "M = 0" | "0 < M" "M < 2 ^ prec fmt" | "M = 2 ^ prec fmt"
    using M by linarith
  then show ?thesis
  proof cases
    case 1
    then show ?thesis by (simp add: r)
  next
    case 2
    then show ?thesis unfolding r using k by (rule rnd_exact)
  next
    case 3
    obtain p' where p': "prec fmt = Suc p'" using p by (cases "prec fmt") simp_all
    have "rnd fmt q = of_int (2 ^ p') * 2 powi (k + 1)"
      by (simp add: r 3 p' power_int_add)
    moreover have "rnd fmt (of_int (2 ^ p') * 2 powi (k + 1)) = of_int (2 ^ p') * 2 powi (k + 1)"
      by (rule rnd_exact) (use k in \<open>simp_all add: p'\<close>)
    ultimately show ?thesis by simp
  qed
qed

lemma mk_cases:
  "mk fmt s q = Infinity s \<and> 2 powi (emax fmt + 1) \<le> rnd fmt q \<or>
   mk fmt s q = Finite s (rnd fmt q) \<and> rnd fmt q < 2 powi (emax fmt + 1)"
  by (auto simp: mk_def Let_def)

text \<open>A finite result of a rounding is a value of the format: rounding it again gives it back.\<close>

lemma mk_Finite_again:
  assumes "0 < prec fmt" and "mk fmt s q = Finite s' r"
  shows "mk fmt s'' r = Finite s'' r"
proof -
  from assms(2) mk_cases [of fmt s q] have r: "r = rnd fmt q" "r < 2 powi (emax fmt + 1)"
    by auto
  have "rnd fmt r = r" unfolding r(1) using assms(1) by (rule rnd_idem)
  with r(2) show ?thesis by (simp add: mk_def)
qed

lemma mk_nonneg: "mk fmt s q = Finite s' r \<Longrightarrow> 0 \<le> r \<and> s' = s"
  using mk_cases [of fmt s q] rnd_nonneg [of fmt q] by auto

lemma mk_zero [simp]: "mk fmt s 0 = Finite s 0"
proof -
  have "(0::rat) < 2 powi (emax fmt + 1)" by simp
  then show ?thesis by (simp add: mk_def not_le)
qed

lemma of_int_fp_exact:
  assumes "n < 2 ^ 53"
  shows "of_int_fp binary64 n = Finite False (of_nat n)"
proof (cases "n = 0")
  case True
  then show ?thesis by (simp add: of_int_fp_def)
next
  case False
  have "int n < 2 ^ prec binary64"
    using assms by (simp add: binary64_def) 
  then have "rnd binary64 (of_int (int n) * 2 powi 0) = of_int (int n) * 2 powi 0"
    using False by (intro rnd_exact) (simp_all add: binary64_def)
  then have r: "rnd binary64 (of_nat n) = of_nat n" by simp
  have "(of_nat n :: rat) < of_nat (2 ^ 53)" using assms by (simp only: of_nat_less_iff)
  also have "\<dots> < 2 powi (emax binary64 + 1)" by (simp add: binary64_def)
  finally show ?thesis by (simp add: of_int_fp_def mk_def r)
qed

section \<open>Evaluating the operations on numerals\<close>


lemma floor_rat_numeral_frac: "\<lfloor>numeral a / numeral b :: rat\<rfloor> = numeral a div numeral b"
  by (metis floor_divide_of_int_eq of_int_numeral)

lemma floor_rat_one_frac: "\<lfloor>1 / numeral b :: rat\<rfloor> = 1 div numeral b"
  by (metis floor_divide_of_int_eq of_int_numeral of_int_1)

lemma ceiling_rat_numeral_frac: "\<lceil>numeral a / numeral b :: rat\<rceil> = - (- numeral a div numeral b)"
  by (metis ceiling_def floor_divide_of_int_eq minus_divide_left of_int_minus of_int_numeral)

lemma ceiling_rat_one_frac: "\<lceil>1 / numeral b :: rat\<rceil> = - (- 1 div numeral b)"
  by (metis ceiling_def floor_divide_of_int_eq minus_divide_left of_int_minus of_int_numeral of_int_1)

lemma bitlen_numeral: "bitlen (numeral n) = bitlen (numeral n div 2) + 1"
  by (subst compute_bitlen) simp

lemma bitlen_one: "bitlen 1 = 1"
  by (subst compute_bitlen) simp

text \<open>Values below \<open>2 ^ 64\<close> do not overflow.\<close>

lemma mk_small:
  assumes "q < 2 ^ 64" and "64 \<le> emax fmt"
  shows "mk fmt s q = Finite s (rnd fmt q)"
proof (cases "0 < q")
  case False
  have "(0::rat) < 2 powi (emax fmt + 1)" by simp
  with False show ?thesis by (simp add: rnd_def mk_def not_le)
next
  case True
  have "q < 2 powi 64" using assms(1) by simp
  with ilog2_bounds [OF True] have e: "ilog2 q < 64"
    using powi_less_exp by blast
  from rnd_shape [OF True, of fmt] obtain M where
    r: "rnd fmt q = of_int M * 2 powi (max (ilog2 q) (1 - emax fmt) - int (prec fmt) + 1)"
    and M: "0 \<le> M" "M \<le> 2 ^ prec fmt"
    by blast
  have "of_int M \<le> (2::rat) ^ prec fmt"
    using M(2) by (metis of_int_le_iff of_int_numeral of_int_power)
  then have "rnd fmt q \<le> 2 ^ prec fmt * 2 powi (max (ilog2 q) (1 - emax fmt) - int (prec fmt) + 1)"
    unfolding r by (simp add: mult_right_mono)
  also have "\<dots> = 2 powi (max (ilog2 q) (1 - emax fmt) + 1)"
    by (simp add: power_int_add power_int_diff)
  also have "\<dots> < 2 powi (emax fmt + 1)"
    by (rule power_int_strict_increasing) (use e assms(2) in simp_all)
  finally show ?thesis by (simp add: mk_def)
qed

lemmas fp_eval = mk_small rnd_def ulp_def ilog2_def rne_def Let_def binary64_def binary32_def
  val_def fsub_def of_int_fp_def floor_rat_numeral_frac floor_rat_one_frac
  ceiling_rat_numeral_frac ceiling_rat_one_frac bitlen_numeral bitlen_one

lemma rne_numeral [simp]: "rne (numeral a) = numeral a"
  using rne_of_int [of "numeral a"] by simp

lemma rne_zero [simp]: "rne 0 = 0"
  using rne_of_int [of 0] by simp

lemma dec_digit: "n < 10 \<Longrightarrow> dec n = [digit n]"
  by (subst dec.simps) simp

lemma dec_step: "10 \<le> n \<Longrightarrow> dec n = dec (n div 10) @ [digit (n mod 10)]"
  by (subst dec.simps) simp

lemma printf_Finite:
  "rne (q * 100) = n \<Longrightarrow>
   printf_8_2lf (Finite s q) =
     pad_left 8 ((if s then ''-'' else '''') @ dec (n div 100) @ ''.'' @
                 [digit (n mod 100 div 10), digit (n mod 10)])"
  by (simp add: Let_def)

lemmas rne_eval = rne_def Let_def floor_rat_numeral_frac floor_rat_one_frac

lemmas print_eval = dec_digit dec_step digit_def pad_left_def eval_nat_numeral

lemma upt_0_1: "[0..<Suc 0] = [0]"
  by simp

lemma of_int_fp_one: "of_int_fp binary64 (Suc 0) = Finite False 1"
  using of_int_fp_exact [of "Suc 0"] by simp

lemma of_int_fp_SIZE_src: "of_int_fp binary64 SIZE_src = Finite False 32742"
  using of_int_fp_exact [of SIZE_src] by (simp add: SIZE_src_def)

lemma valid_schedule_src: "valid_schedule NUMT_src SIZE_src (map (Pair 0) [0..<SIZE_src])"
  by (simp add: valid_schedule_def comp_def NUMT_src_def)


section \<open>Comparison and the running maximum\<close>

lemma fgt_trans: "fgt x y \<Longrightarrow> fgt y z \<Longrightarrow> fgt x z"
  by (cases x; cases y; cases z) auto

lemma fgt_le_trans: "fgt x r \<Longrightarrow> \<not> fgt m r \<Longrightarrow> m \<noteq> NaN \<Longrightarrow> fgt x m"
  by (cases x; cases r; cases m) auto

lemma fgt_not_NaN: "fgt x y \<Longrightarrow> x \<noteq> NaN \<and> y \<noteq> NaN"
  by (cases x; cases y) auto

lemma fgt_irrefl: "\<not> fgt x x"
  by (cases x) auto

lemma foldl_max_step:
  assumes "m \<noteq> NaN"
  shows "foldl max_step m xs \<in> set (m # xs) \<and> foldl max_step m xs \<noteq> NaN \<and>
         \<not> fgt m (foldl max_step m xs) \<and> (\<forall>x\<in>set xs. \<not> fgt x (foldl max_step m xs))"
  using assms
proof (induction xs arbitrary: m)
  case Nil
  then show ?case by (simp add: fgt_irrefl)
next
  case (Cons x xs)
  show ?case
  proof (cases "fgt x m")
    case True
    then have e: "max_step m x = x" by (simp add: max_step_def)
    have "x \<noteq> NaN" using True fgt_not_NaN by blast
    from Cons.IH [OF this]
    have IH: "foldl max_step x xs \<in> set (x # xs)" "foldl max_step x xs \<noteq> NaN"
      "\<not> fgt x (foldl max_step x xs)" "\<forall>y\<in>set xs. \<not> fgt y (foldl max_step x xs)"
      by simp_all
    have "\<not> fgt m (foldl max_step x xs)"
      using True IH(3) fgt_trans by blast
    with IH show ?thesis by (simp add: e)
  next
    case False
    then have e: "max_step m x = m" by (simp add: max_step_def)
    from Cons.IH [OF Cons.prems]
    have IH: "foldl max_step m xs \<in> set (m # xs)" "foldl max_step m xs \<noteq> NaN"
      "\<not> fgt m (foldl max_step m xs)" "\<forall>y\<in>set xs. \<not> fgt y (foldl max_step m xs)"
      by simp_all
    have "\<not> fgt x (foldl max_step m xs)"
      using False IH(3) Cons.prems fgt_le_trans by blast
    with IH show ?thesis by (auto simp: e)
  qed
qed

lemma foldl_max_step_nonneg:
  assumes "is_nonneg m" and "\<forall>x\<in>set xs. \<forall>s q. x = Finite s q \<longrightarrow> 0 \<le> q"
  shows "is_nonneg (foldl max_step m xs)"
  using assms
proof (induction xs arbitrary: m)
  case Nil
  then show ?case by simp
next
  case (Cons x xs)
  have "is_nonneg (max_step m x)"
  proof (cases "fgt x m")
    case True
    have "is_nonneg x"
    proof (cases x)
      case (Finite s q)
      with Cons.prems(2) have "0 \<le> q" by simp
      with True Finite Cons.prems(1) show ?thesis
        by (cases m) (auto simp: val_def split: if_splits)
    next
      case (Infinity s)
      with True Cons.prems(1) show ?thesis by (cases m) auto
    next
      case NaN
      with True show ?thesis by simp
    qed
    with True show ?thesis by (simp add: max_step_def)
  next
    case False
    with Cons.prems(1) show ?thesis by (simp add: max_step_def)
  qed
  with Cons show ?case by simp
qed

lemma foldl_max_step_none_greater:
  assumes "\<forall>x\<in>set xs. \<not> fgt x m"
  shows "foldl max_step m xs = m"
  using assms
proof (induction xs)
  case Nil
  show ?case by simp
next
  case (Cons x xs)
  then have "max_step m x = m" by (simp add: max_step_def)
  with Cons show ?case by simp
qed

section \<open>Results of a division and of an addition\<close>

lemma fdiv_Finite:
  assumes "0 < prec fmt" and "fdiv fmt x y = Finite s q"
  shows "0 \<le> q \<and> mk fmt s' q = Finite s' q"
proof (cases x)
  case x: (Finite sx qx)
  show ?thesis
  proof (cases y)
    case y: (Finite sy qy)
    with x assms(2) have "mk fmt (sx \<noteq> sy) (qx / qy) = Finite s q"
      by (simp split: if_splits)
    then show ?thesis
      using mk_nonneg mk_Finite_again [OF assms(1)] by blast
  next
    case (Infinity sy)
    with x assms(2) show ?thesis by simp
  next
    case NaN
    with x assms(2) show ?thesis by simp
  qed
next
  case (Infinity sx)
  with assms(2) show ?thesis by (cases y) simp_all
next
  case NaN
  with assms(2) show ?thesis by simp
qed

lemma throughput_sample_Finite:
  "throughput_sample SIZE wtime t = Finite s q \<Longrightarrow> 0 \<le> q \<and> mk binary64 s' q = Finite s' q"
  unfolding throughput_sample_def by (rule fdiv_Finite) (simp add: binary64_def)

section \<open>Samples, sum and maximum of a run\<close>

lemma val_neg: "val (\<not> s) q = - val s q"
  by (simp add: val_def)

lemma sample_zero_elapsed:
  assumes "0 < SIZE" and "SIZE < 2 ^ 53" and "wtime (2 * t + 1) = wtime (2 * t)"
    and "is_finite (wtime (2 * t))"
  shows "throughput_sample SIZE wtime t = Infinity False"
proof -
  obtain s q where w: "wtime (2 * t) = Finite s q"
    using assms(4) by (cases "wtime (2 * t)") simp_all
  have "fsub binary64 (wtime (2 * t + 1)) (wtime (2 * t)) = Finite False 0"
    using assms(3) w by (simp add: fsub_def val_neg)
  then show ?thesis
    using assms(1) by (simp add: throughput_sample_def of_int_fp_exact [OF assms(2)])
qed

lemma sample_negative_elapsed:
  assumes "0 < SIZE" and "SIZE < 2 ^ 53"
    and "is_finite (wtime (2 * t))" and "is_finite (wtime (2 * t + 1))"
    and "value_of (wtime (2 * t + 1)) < value_of (wtime (2 * t))"
  shows "sign_bit (throughput_sample SIZE wtime t) \<and> throughput_sample SIZE wtime t \<noteq> NaN"
proof -
  obtain s0 q0 where w0: "wtime (2 * t) = Finite s0 q0"
    using assms(3) by (cases "wtime (2 * t)") simp_all
  obtain s1 q1 where w1: "wtime (2 * t + 1) = Finite s1 q1"
    using assms(4) by (cases "wtime (2 * t + 1)") simp_all
  define v where "v = val s1 q1 + val (\<not> s0) q0"
  have v: "v < 0" using assms(5) w0 w1 by (simp add: v_def val_neg)
  have dt: "fsub binary64 (wtime (2 * t + 1)) (wtime (2 * t)) = mk binary64 True \<bar>v\<bar>"
    using v w0 w1 by (simp add: fsub_def v_def Let_def)
  have n: "of_int_fp binary64 SIZE = Finite False (of_nat SIZE)"
    by (rule of_int_fp_exact [OF assms(2)])
  define y where "y = fdiv binary64 (Finite False (of_nat SIZE)) (mk binary64 True \<bar>v\<bar>)"
  have y: "y = Infinity True \<or> (\<exists>r. y = Finite True r)"
  proof -
    consider (inf) "mk binary64 True \<bar>v\<bar> = Infinity True"
      | (fin) "mk binary64 True \<bar>v\<bar> = Finite True (rnd binary64 \<bar>v\<bar>)"
      using mk_cases [of binary64 True "\<bar>v\<bar>"] by blast
    then show ?thesis
    proof cases
      case inf
      then show ?thesis by (simp add: y_def)
    next
      case fin
      show ?thesis
      proof (cases "rnd binary64 \<bar>v\<bar> = 0")
        case True
        then show ?thesis using assms(1) by (simp add: y_def fin)
      next
        case False
        then have "y = mk binary64 True (of_nat SIZE / rnd binary64 \<bar>v\<bar>)"
          by (simp add: y_def fin)
        then show ?thesis
          using mk_cases [of binary64 True "of_nat SIZE / rnd binary64 \<bar>v\<bar>"] by auto
      qed
    qed
  qed
  have "throughput_sample SIZE wtime t = fdiv binary64 y (Finite False 1000000)"
    using dt by (simp add: throughput_sample_def n y_def)
  moreover have "sign_bit (fdiv binary64 y (Finite False 1000000)) \<and>
      fdiv binary64 y (Finite False 1000000) \<noteq> NaN"
    using y
  proof
    assume "y = Infinity True"
    then show ?thesis by simp
  next
    assume "\<exists>r. y = Finite True r"
    then obtain r where "y = Finite True r" ..
    then show ?thesis
      using mk_cases [of binary64 True "r / 1000000"] by auto
  qed
  ultimately show ?thesis by simp
qed

text \<open>
  Claim C6. The events of a trial are: a clock reading, then the iterations of its
  parallel loop and nothing else, then the next clock reading; and the trial adds to the
  sum the value \<open>SIZE / (time1 - time0) / 1000000\<close> of what these two readings returned.
  Over a run the events are those of trial 0, trial 1 and so on, so that trial \<open>t\<close>
  makes the readings number \<open>2 * t\<close> and \<open>2 * t + 1\<close>; the sum is the left-to-right
  sum of the samples of the trials, and the second line printed shows that sum divided by
  \<open>NUMTRIES\<close>. No elapsed time is treated specially: an elapsed time of zero gives the
  sample \<open>+\<infinity>\<close>, a negative one gives a sample with the sign bit set.
\<close>

theorem sample_and_average:
  "trace (trial SIZE sched wtime t s) =
     trace s @ [Clock (wtime_calls s)] @ map (\<lambda>(k, i). Iteration k i) (sched t) @
     [Clock (Suc (wtime_calls s))] \<and>
   trace (trial_loop SIZE NUMTRIES sched wtime 0 (before_trials SIZE NUMT)) =
     concat (map (trial_events sched) [0..<NUMTRIES]) \<and>
   sum_megaMults (trial SIZE sched wtime t s) =
     fadd binary64 (sum_megaMults s)
       (fdiv binary64
          (fdiv binary64 (of_int_fp binary64 SIZE)
             (fsub binary64 (wtime (Suc (wtime_calls s))) (wtime (wtime_calls s))))
          (Finite False 1000000)) \<and>
   sum_megaMults (trial_loop SIZE NUMTRIES sched wtime 0 (before_trials SIZE NUMT)) =
     foldl (fadd binary64) (Finite False 0)
       (map (throughput_sample SIZE wtime) [0..<NUMTRIES]) \<and>
   stdout (snd (main True SIZE NUMTRIES NUMT sched wtime)) ! 1 =
     ''Average Performance = '' @
     printf_8_2lf (fdiv binary64
       (sum_megaMults (trial_loop SIZE NUMTRIES sched wtime 0 (before_trials SIZE NUMT)))
       (of_int_fp binary64 NUMTRIES)) @ '' MegaMults/Sec\<newline>'' \<and>
   (0 < SIZE \<and> SIZE < 2 ^ 53 \<and> wtime (2 * t1 + 1) = wtime (2 * t1) \<and>
      is_finite (wtime (2 * t1)) \<longrightarrow>
    throughput_sample SIZE wtime t1 = Infinity False) \<and>
   (0 < SIZE \<and> SIZE < 2 ^ 53 \<and> is_finite (wtime (2 * t2)) \<and> is_finite (wtime (2 * t2 + 1)) \<and>
      value_of (wtime (2 * t2 + 1)) < value_of (wtime (2 * t2)) \<longrightarrow>
    sign_bit (throughput_sample SIZE wtime t2) \<and> throughput_sample SIZE wtime t2 \<noteq> NaN)"
proof -
  have "sum_megaMults (trial SIZE sched wtime t s) =
     fadd binary64 (sum_megaMults s)
       (fdiv binary64
          (fdiv binary64 (of_int_fp binary64 SIZE)
             (fsub binary64 (wtime (Suc (wtime_calls s))) (wtime (wtime_calls s))))
          (Finite False 1000000))"
    by (simp add: trial_def omp_get_wtime_def Let_def par_for_frame)
  then show ?thesis
    using sample_zero_elapsed [of SIZE wtime t1] sample_negative_elapsed [of SIZE wtime t2]
    by (simp add: run_scalars main_stdout run_trace trial_trace)
qed

theorem sample_and_average_witness:
  "throughput_sample 4 (\<lambda>k. Finite False (if k = 2 then 7 else if k = 3 then 6 else 5)) 0 =
     Infinity False \<and>
   sign_bit (throughput_sample 4
     (\<lambda>k. Finite False (if k = 2 then 7 else if k = 3 then 6 else 5)) 1)"
  using sample_and_average [of 4 "\<lambda>t. [(0, 0), (0, 1), (0, 2), (0, 3)]"
      "\<lambda>k. Finite False (if k = 2 then 7 else if k = 3 then 6 else 5)" 0 "before_trials 4 1"
      2 1 0 1]
  by (simp add: val_def)

text \<open>
  Claim C10. The peak at the end of a run is 0 or one of the samples, no sample and not
  0 is greater than it, and it is not negative: its sign bit is clear. When no sample
  is greater than 0 it is 0. The first line printed shows it.
\<close>

theorem peak_is_max_of_zero_and_samples:
  "maxMegaMults (trial_loop SIZE NUMTRIES sched wtime 0 (before_trials SIZE NUMT)) \<in>
     set (Finite False 0 # map (throughput_sample SIZE wtime) [0..<NUMTRIES]) \<and>
   (\<forall>x\<in>set (Finite False 0 # map (throughput_sample SIZE wtime) [0..<NUMTRIES]).
      \<not> fgt x (maxMegaMults (trial_loop SIZE NUMTRIES sched wtime 0 (before_trials SIZE NUMT)))) \<and>
   is_nonneg (maxMegaMults (trial_loop SIZE NUMTRIES sched wtime 0 (before_trials SIZE NUMT))) \<and>
   ((\<forall>t<NUMTRIES. \<not> fgt (throughput_sample SIZE wtime t) (Finite False 0)) \<longrightarrow>
      maxMegaMults (trial_loop SIZE NUMTRIES sched wtime 0 (before_trials SIZE NUMT)) =
        Finite False 0) \<and>
   stdout (snd (main True SIZE NUMTRIES NUMT sched wtime)) ! 0 =
     ''Peak Performance = '' @
     printf_8_2lf (maxMegaMults (trial_loop SIZE NUMTRIES sched wtime 0 (before_trials SIZE NUMT))) @
     '' MegaMults/Sec\<newline>''"
proof -
  let ?xs = "map (throughput_sample SIZE wtime) [0..<NUMTRIES]"
  have peak: "maxMegaMults (trial_loop SIZE NUMTRIES sched wtime 0 (before_trials SIZE NUMT)) =
      foldl max_step (Finite False 0) ?xs"
    by (simp add: run_scalars)
  have "\<forall>x\<in>set ?xs. \<forall>s q. x = Finite s q \<longrightarrow> 0 \<le> q"
    using throughput_sample_Finite by auto
  then have nonneg: "is_nonneg (foldl max_step (Finite False 0) ?xs)"
    by (intro foldl_max_step_nonneg) simp_all
  have zero: "foldl max_step (Finite False 0) ?xs = Finite False 0"
    if "\<forall>t<NUMTRIES. \<not> fgt (throughput_sample SIZE wtime t) (Finite False 0)"
    by (rule foldl_max_step_none_greater) (use that in auto)
  from foldl_max_step [of "Finite False 0" ?xs] nonneg zero show ?thesis
    unfolding peak by (simp add: main_stdout)
qed

theorem peak_is_max_of_zero_and_samples_witness:
  "\<not> fgt (throughput_sample 4 (\<lambda>k. Finite False (if even k then 1 else 0)) 0) (Finite False 0) \<and>
   \<not> fgt (throughput_sample 4 (\<lambda>k. Finite False (if even k then 1 else 0)) 1) (Finite False 0) \<and>
   maxMegaMults (trial_loop 4 2 (\<lambda>t. [(0, 0), (0, 1), (0, 2), (0, 3)])
      (\<lambda>k. Finite False (if even k then 1 else 0)) 0 (before_trials 4 1)) = Finite False 0"
proof -
  have x: "throughput_sample 4 (\<lambda>k. Finite False (if even k then 1 else 0)) t =
      Finite True (4722366482869645 / 1180591620717411303424)" for t
    by (simp add: throughput_sample_def fp_eval)
  then have "\<forall>t<2. \<not> fgt (throughput_sample 4 (\<lambda>k. Finite False (if even k then 1 else 0)) t)
      (Finite False 0)"
    by (simp add: val_def)
  with peak_is_max_of_zero_and_samples [of 4 2 "\<lambda>t. [(0, 0), (0, 1), (0, 2), (0, 3)]"
      "\<lambda>k. Finite False (if even k then 1 else 0)" 1]
  show ?thesis by (simp add: x val_def)
qed

section \<open>A run of one trial\<close>

lemma sum_of_one_sample:
  assumes "\<And>s q. x = Finite s q \<Longrightarrow> 0 \<le> q \<and> mk binary64 s q = Finite s q"
  shows "fdiv binary64 (fadd binary64 (Finite False 0) x) (of_int_fp binary64 (Suc 0)) =
           (if x = Finite True 0 then Finite False 0 else x)"
proof -
  note one = of_int_fp_one
  show ?thesis
  proof (cases x)
    case (Finite s q)
    from assms [OF Finite] have q: "0 \<le> q" and r: "mk binary64 s q = Finite s q" by simp_all
    show ?thesis
    proof (cases "q = 0")
      case True
      then show ?thesis by (simp add: Finite one val_def)
    next
      case False
      with q have "0 < q" by simp
      then have "fadd binary64 (Finite False 0) x = Finite s q"
        using r by (cases s) (simp_all add: Finite val_def)
      then show ?thesis using r False by (simp add: one Finite)
    qed
  next
    case (Infinity s)
    then show ?thesis by (simp add: one)
  next
    case NaN
    then show ?thesis by (simp add: one)
  qed
qed

lemma one_trial_average:
  "fdiv binary64
     (sum_megaMults (trial_loop SIZE (Suc 0) sched wtime 0 (before_trials SIZE NUMT)))
     (of_int_fp binary64 (Suc 0)) =
   (if throughput_sample SIZE wtime 0 = Finite True 0 then Finite False 0
    else throughput_sample SIZE wtime 0)"
  using sum_of_one_sample [of "throughput_sample SIZE wtime 0"] throughput_sample_Finite
  by (simp add: run_scalars upt_0_1)

lemma one_trial_peak:
  "maxMegaMults (trial_loop SIZE (Suc 0) sched wtime 0 (before_trials SIZE NUMT)) =
   (if fgt (throughput_sample SIZE wtime 0) (Finite False 0) then throughput_sample SIZE wtime 0
    else Finite False 0)"
  by (simp add: run_scalars upt_0_1 max_step_def)

lemma not_less_not_greater_zero:
  assumes "x \<noteq> NaN" and "\<not> fgt (Finite False 0) x" and "\<not> fgt x (Finite False 0)"
  shows "\<exists>s. x = Finite s 0"
  using assms by (cases x) (auto simp: val_def split: if_splits)

text \<open>
  Claim C4, as the code has it. In a run of one trial whose sample is not negative and
  not a NaN (the clock did not run backwards during the trial), the peak is the average
  (the sum divided by 1), and the two lines print the same number. When the sample is
  negative, the peak stays 0 and the average is the sample.
\<close>

theorem one_trial_peak_is_average:
  "(throughput_sample SIZE wtime 0 \<noteq> NaN \<and>
    \<not> fgt (Finite False 0) (throughput_sample SIZE wtime 0) \<longrightarrow>
      maxMegaMults (trial_loop SIZE 1 sched wtime 0 (before_trials SIZE NUMT)) =
        fdiv binary64
          (sum_megaMults (trial_loop SIZE 1 sched wtime 0 (before_trials SIZE NUMT)))
          (of_int_fp binary64 1) \<and>
      (\<exists>str. stdout (snd (main True SIZE 1 NUMT sched wtime)) =
         [''Peak Performance = '' @ str @ '' MegaMults/Sec\<newline>'',
          ''Average Performance = '' @ str @ '' MegaMults/Sec\<newline>''])) \<and>
   (fgt (Finite False 0) (throughput_sample SIZE' wtime' 0) \<longrightarrow>
      maxMegaMults (trial_loop SIZE' 1 sched' wtime' 0 (before_trials SIZE' NUMT')) =
        Finite False 0 \<and>
      fdiv binary64
        (sum_megaMults (trial_loop SIZE' 1 sched' wtime' 0 (before_trials SIZE' NUMT')))
        (of_int_fp binary64 1) = throughput_sample SIZE' wtime' 0)"
  unfolding One_nat_def
proof (intro conjI impI)
  let ?x = "throughput_sample SIZE wtime 0"
  let ?s = "trial_loop SIZE (Suc 0) sched wtime 0 (before_trials SIZE NUMT)"
  assume a: "?x \<noteq> NaN \<and> \<not> fgt (Finite False 0) ?x"
  show eq: "maxMegaMults ?s = fdiv binary64 (sum_megaMults ?s) (of_int_fp binary64 (Suc 0))"
  proof (cases "fgt ?x (Finite False 0)")
    case True
    then have "?x \<noteq> Finite True 0" by (auto simp: val_def)
    with True show ?thesis by (simp only: one_trial_average one_trial_peak if_True if_False)
  next
    case False
    with a obtain s where "?x = Finite s 0"
      using not_less_not_greater_zero by blast
    then show ?thesis
      by (cases s) (simp_all add: one_trial_average one_trial_peak val_def)
  qed
  have "stdout (snd (main True SIZE (Suc 0) NUMT sched wtime)) =
      [''Peak Performance = '' @ printf_8_2lf (maxMegaMults ?s) @ '' MegaMults/Sec\<newline>'',
       ''Average Performance = '' @
         printf_8_2lf (fdiv binary64 (sum_megaMults ?s) (of_int_fp binary64 (Suc 0))) @
         '' MegaMults/Sec\<newline>'']"
    by (simp only: main_stdout run_scalars)
  then show "\<exists>str. stdout (snd (main True SIZE (Suc 0) NUMT sched wtime)) =
         [''Peak Performance = '' @ str @ '' MegaMults/Sec\<newline>'',
          ''Average Performance = '' @ str @ '' MegaMults/Sec\<newline>'']"
    unfolding eq [symmetric] by blast
next
  let ?x = "throughput_sample SIZE' wtime' 0"
  assume a: "fgt (Finite False 0) ?x"
  then have n: "\<not> fgt ?x (Finite False 0)" by (cases ?x) (auto simp: val_def)
  then show "maxMegaMults (trial_loop SIZE' (Suc 0) sched' wtime' 0 (before_trials SIZE' NUMT')) =
        Finite False 0"
    by (simp add: one_trial_peak)
  have "?x \<noteq> Finite True 0" using a by (auto simp: val_def)
  then show "fdiv binary64
        (sum_megaMults (trial_loop SIZE' (Suc 0) sched' wtime' 0 (before_trials SIZE' NUMT')))
        (of_int_fp binary64 (Suc 0)) = ?x"
    by (simp add: one_trial_average)
qed

lemma sample_clock_back:
  "throughput_sample SIZE_src (\<lambda>k. Finite False (if k = 0 then 2 else 1)) 0 =
     Finite True (4718619487979673 / 144115188075855872)"
  unfolding throughput_sample_def of_int_fp_SIZE_src by (simp add: fp_eval)

lemma sample_one_second:
  "throughput_sample SIZE_src (\<lambda>k. Finite False (of_nat k)) 0 =
     Finite False (4718619487979673 / 144115188075855872)"
  unfolding throughput_sample_def of_int_fp_SIZE_src by (simp add: fp_eval)

theorem one_trial_peak_is_average_witness:
  "throughput_sample SIZE_src (\<lambda>k. Finite False (of_nat k)) 0 \<noteq> NaN \<and>
   \<not> fgt (Finite False 0) (throughput_sample SIZE_src (\<lambda>k. Finite False (of_nat k)) 0) \<and>
   maxMegaMults (trial_loop SIZE_src 1 (\<lambda>t. map (Pair 0) [0..<SIZE_src])
       (\<lambda>k. Finite False (of_nat k)) 0 (before_trials SIZE_src NUMT_src)) =
     fdiv binary64
       (sum_megaMults (trial_loop SIZE_src 1 (\<lambda>t. map (Pair 0) [0..<SIZE_src])
          (\<lambda>k. Finite False (of_nat k)) 0 (before_trials SIZE_src NUMT_src)))
       (of_int_fp binary64 1) \<and>
   fgt (Finite False 0)
     (throughput_sample SIZE_src (\<lambda>k. Finite False (if k = 0 then 2 else 1)) 0) \<and>
   maxMegaMults (trial_loop SIZE_src 1 (\<lambda>t. map (Pair 0) [0..<SIZE_src])
       (\<lambda>k. Finite False (if k = 0 then 2 else 1)) 0 (before_trials SIZE_src NUMT_src)) =
     Finite False 0"
proof -
  have 1: "throughput_sample SIZE_src (\<lambda>k. Finite False (of_nat k)) 0 \<noteq> NaN \<and>
      \<not> fgt (Finite False 0) (throughput_sample SIZE_src (\<lambda>k. Finite False (of_nat k)) 0)"
    by (simp add: sample_one_second val_def)
  have 2: "fgt (Finite False 0)
      (throughput_sample SIZE_src (\<lambda>k. Finite False (if k = 0 then 2 else 1)) 0)"
    by (simp add: sample_clock_back val_def)
  from 1 2 one_trial_peak_is_average [of SIZE_src "\<lambda>k. Finite False (of_nat k)"
      "\<lambda>t. map (Pair 0) [0..<SIZE_src]" NUMT_src SIZE_src
      "\<lambda>k. Finite False (if k = 0 then 2 else 1)" "\<lambda>t. map (Pair 0) [0..<SIZE_src]" NUMT_src]
  show ?thesis by blast
qed

text \<open>
  Claim C4 as stated fails: the source's configuration with one trial, when the clock
  reads 2 before the parallel loop and 1 after it. The sample is negative, the peak
  stays 0 and the two lines differ.
\<close>

theorem one_trial_peak_differs_counterexample:
  "valid_schedule NUMT_src SIZE_src (map (Pair 0) [0..<SIZE_src]) \<and>
   stdout (snd (main True SIZE_src 1 NUMT_src (\<lambda>t. map (Pair 0) [0..<SIZE_src])
     (\<lambda>k. Finite False (if k = 0 then 2 else 1)))) =
   [''Peak Performance =     0.00 MegaMults/Sec\<newline>'',
    ''Average Performance =    -0.03 MegaMults/Sec\<newline>'']"
proof -
  let ?clk = "\<lambda>k. Finite False (if k = 0 then 2 else 1)"
  have peak: "foldl max_step (Finite False 0) (map (throughput_sample SIZE_src ?clk) [0]) =
      Finite False 0"
    by (simp add: sample_clock_back max_step_def val_def)
  have "fdiv binary64
      (fadd binary64 (Finite False 0) (Finite True (4718619487979673 / 144115188075855872)))
      (Finite False 1) = Finite True (4718619487979673 / 144115188075855872)"
    by (simp add: fp_eval)
  then have avg: "fdiv binary64
      (foldl (fadd binary64) (Finite False 0) (map (throughput_sample SIZE_src ?clk) [0]))
      (Finite False 1) = Finite True (4718619487979673 / 144115188075855872)"
    by (simp only: list.map foldl.simps sample_clock_back)
  have p0: "printf_8_2lf (Finite False 0) = ''    0.00''"
    by (subst printf_Finite [where n = 0]) (simp_all add: print_eval)
  have "rne (4718619487979673 / 144115188075855872 * 100) = 3"
    by (simp add: rne_eval)
  then have p1: "printf_8_2lf (Finite True (4718619487979673 / 144115188075855872)) = ''   -0.03''"
    by (subst printf_Finite [where n = 3]) (simp_all add: print_eval)
  have "stdout (snd (main True SIZE_src (Suc 0) NUMT_src (\<lambda>t. map (Pair 0) [0..<SIZE_src]) ?clk)) =
   [''Peak Performance =     0.00 MegaMults/Sec\<newline>'',
    ''Average Performance =    -0.03 MegaMults/Sec\<newline>'']"
    unfolding main_stdout upt_0_1 of_int_fp_one peak avg p0 p1 by simp
  then show ?thesis
    using valid_schedule_src by simp
qed

section \<open>Peak and average\<close>









section \<open>The two lines printed\<close>

lemma dec_length_pos: "0 < length (dec n)"
  by (subst dec.simps) simp














end
